theory Spec2Isabelle
  imports Complex_Main "HOL-Library.AList" "HOL-Library.FSet" "HOL-Library.Sublist"
begin

section \<open>Data model\<close>

text \<open>
  A page is a file name.  The corpus is a Python \<open>dict\<close> from a page to the \<open>set\<close> of
  pages it links to: an association list in insertion order (the order in which
  \<open>for key in corpus\<close> visits the keys) whose values are finite sets.  A Python dict
  holds every key once; \<open>dict_ok\<close> says so of an association list.  Rank tables,
  distributions and visit counters are dicts over the same keys.  Python's floats are
  modelled by exact real arithmetic.
\<close>

type_synonym page = string

type_synonym 'v pydict = "(page \<times> 'v) list"

type_synonym corpus = "page fset pydict"

datatype error = KeyError | IndexError | ZeroDivisionError | ValueError

definition keys :: "'v pydict \<Rightarrow> page list" where
  "keys d = map fst d"

definition dict_ok :: "'v pydict \<Rightarrow> bool" where
  "dict_ok d = distinct (keys d)"

text \<open>\<open>d[k]\<close>: the value stored under \<open>k\<close>, or \<open>KeyError\<close>.\<close>

definition getitem :: "'v pydict \<Rightarrow> page \<Rightarrow> error + 'v" where
  "getitem d k = (case map_of d k of None \<Rightarrow> Inl KeyError | Some v \<Rightarrow> Inr v)"


text \<open>The corpus of the specification's scenario: \<open>{A: {B, C}, B: {}, C: {A}}\<close>.\<close>

definition example_corpus :: corpus where
  "example_corpus = [(''A'', {|''B'', ''C''|}), (''B'', {||}), (''C'', {|''A''|})]"

text \<open>A corpus of two pages, the second dangling: \<open>{A: {B}, B: {}}\<close>.\<close>

definition two_page_corpus :: corpus where
  "two_page_corpus = [(''A'', {|''B''|}), (''B'', {||})]"

section \<open>Corpus ingestion\<close>

text \<open>
  \<open>crawl(directory)\<close>.  The directory is its listing: the files in the order of
  \<open>os.listdir\<close>, each with the contents that reading it returns.  The search
  \<open>re.findall\<close> with the pattern for \<open>href\<close> attributes belongs to the library; it is
  the parameter \<open>findall\<close>, which returns the list of the link targets found in the
  contents of a file.
\<close>

text \<open>
  The first loop: every file whose name ends in \<open>.html\<close> is read and stored under its
  name with the set of its links, its own name removed.
\<close>

fun crawl_read :: "(string \<Rightarrow> string list) \<Rightarrow> (page \<times> string) list \<Rightarrow> corpus \<Rightarrow> corpus" where
  "crawl_read findall [] pages = pages"
| "crawl_read findall ((filename, contents) # rest) pages =
     (if \<not> suffix ''.html'' filename then crawl_read findall rest pages
      else
        let links = findall contents in
        crawl_read findall rest
          (AList.update filename (fset_of_list links |-| {|filename|}) pages))"

text \<open>
  The second loop \<open>for filename in pages\<close>, over the list of the keys: the value under
  each key is replaced by its links that are keys.  \<open>pages[filename]\<close> raises
  \<open>KeyError\<close> for a missing key.
\<close>

fun crawl_prune :: "page list \<Rightarrow> corpus \<Rightarrow> error + corpus" where
  "crawl_prune [] pages = Inr pages"
| "crawl_prune (filename # rest) pages =
     (case getitem pages filename of
        Inl e \<Rightarrow> Inl e
      | Inr links \<Rightarrow>
          crawl_prune rest
            (AList.update filename (ffilter (\<lambda>link. link \<in> set (keys pages)) links) pages))"

definition crawl :: "(string \<Rightarrow> string list) \<Rightarrow> (page \<times> string) list \<Rightarrow> error + corpus" where
  "crawl findall directory =
     (let pages = crawl_read findall directory [] in crawl_prune (keys pages) pages)"

text \<open>A listing of four files, and a search that finds links in two of them.\<close>

definition toy_findall :: "string \<Rightarrow> string list" where
  "toy_findall contents =
     (if contents = ''one'' then [''1.html'', ''2.html'', ''4.html'', ''notes.txt'']
      else if contents = ''two'' then [''3.html'', ''2.html'']
      else [])"

definition toy_directory :: "(page \<times> string) list" where
  "toy_directory =
     [(''1.html'', ''one''), (''2.html'', ''two''), (''notes.txt'', ''one''), (''3.html'', ''three'')]"

section \<open>Transition model\<close>

text \<open>
  \<open>transition_model(corpus, page, damping_factor)\<close>.  \<open>corpus[page]\<close> raises \<open>KeyError\<close>
  for a page that is not a key.  Past that lookup the corpus is not empty, so \<open>1 / N\<close>
  and \<open>(1 - damping_factor) / N\<close> divide by \<open>N \<ge> 1\<close>, and \<open>damping_factor / num_links\<close>
  is only reached in the branch \<open>num_links \<noteq> 0\<close>.
\<close>

definition transition_model :: "corpus \<Rightarrow> page \<Rightarrow> real \<Rightarrow> error + real pydict" where
  "transition_model corpus page damping_factor =
     (case getitem corpus page of
        Inl e \<Rightarrow> Inl e
      | Inr links \<Rightarrow>
          let N = length corpus; num_links = fcard links in
          if num_links = 0 then
            Inr (map (\<lambda>(key, _). (key, 1 / real N)) corpus)
          else
            Inr (map (\<lambda>(key, _).
                   (key, if key |\<in>| links
                         then (1 - damping_factor) / real N + damping_factor / real num_links
                         else (1 - damping_factor) / real N)) corpus))"

section \<open>Random choices\<close>

text \<open>
  The sampler draws from Python's \<open>random\<close> module.  \<open>random.choice(seq)\<close> raises
  \<open>IndexError\<close> on an empty sequence and otherwise returns \<open>seq[i]\<close> for a drawn index
  \<open>i < len(seq)\<close>.  \<open>random.choices(population, weights, k=1)[0]\<close> raises \<open>ValueError\<close>
  when the numbers of weights and of elements differ, \<open>IndexError\<close> on an empty
  population, \<open>ValueError\<close> when the weights do not total more than zero, and otherwise
  returns \<open>population[i]\<close> for an index \<open>i < len(population)\<close> found from the cumulative
  weights.  The outcome of the generator is a parameter: a natural number \<open>r\<close> per
  call, of which the drawn index is \<open>r mod len\<close>.  Every index is a possible outcome of
  the model, so what is proved for every \<open>r\<close> holds for every draw of the library.
\<close>

definition choice :: "'a list \<Rightarrow> nat \<Rightarrow> error + 'a" where
  "choice seq r = (if seq = [] then Inl IndexError else Inr (seq ! (r mod length seq)))"

definition choices :: "'a list \<Rightarrow> real list \<Rightarrow> nat \<Rightarrow> error + 'a" where
  "choices population weights r =
     (if length weights \<noteq> length population then Inl ValueError
      else if population = [] then Inl IndexError
      else if sum_list weights \<le> 0 then Inl ValueError
      else Inr (population ! (r mod length population)))"

section \<open>Sampling estimator\<close>

text \<open>\<open>visit_counts[k] += 1\<close>: read the counter (\<open>KeyError\<close> if absent) and store it back.\<close>

definition increment :: "int pydict \<Rightarrow> page \<Rightarrow> error + int pydict" where
  "increment visit_counts k =
     (case getitem visit_counts k of
        Inl e \<Rightarrow> Inl e
      | Inr c \<Rightarrow> Inr (AList.update k (c + 1) visit_counts))"

text \<open>
  The loop \<open>for i in range(1, n)\<close>, over the list of the values of \<open>i\<close>; \<open>rng i\<close> is the
  outcome of the generator in round \<open>i\<close>.
\<close>

fun sample_loop ::
  "corpus \<Rightarrow> real \<Rightarrow> (nat \<Rightarrow> nat) \<Rightarrow> nat list \<Rightarrow> page \<Rightarrow> int pydict \<Rightarrow> error + int pydict"
where
  "sample_loop corpus damping_factor rng [] random_page visit_counts = Inr visit_counts"
| "sample_loop corpus damping_factor rng (i # rest) random_page visit_counts =
     (case transition_model corpus random_page damping_factor of
        Inl e \<Rightarrow> Inl e
      | Inr probability_distribution \<Rightarrow>
          (case choices (keys probability_distribution) (map snd probability_distribution) (rng i) of
             Inl e \<Rightarrow> Inl e
           | Inr next_page \<Rightarrow>
               (case increment visit_counts next_page of
                  Inl e \<Rightarrow> Inl e
                | Inr visit_counts' \<Rightarrow>
                    sample_loop corpus damping_factor rng rest next_page visit_counts')))"

text \<open>
  The comprehension \<open>{page: visit_counts[page] / n for page in corpus}\<close>; the division
  of two integers raises \<open>ZeroDivisionError\<close> when \<open>n = 0\<close>.
\<close>

fun rank_entries :: "page list \<Rightarrow> int pydict \<Rightarrow> int \<Rightarrow> error + real pydict" where
  "rank_entries [] visit_counts n = Inr []"
| "rank_entries (page # rest) visit_counts n =
     (case getitem visit_counts page of
        Inl e \<Rightarrow> Inl e
      | Inr c \<Rightarrow>
          if n = 0 then Inl ZeroDivisionError
          else (case rank_entries rest visit_counts n of
                  Inl e \<Rightarrow> Inl e
                | Inr page_ranks \<Rightarrow> Inr ((page, real_of_int c / real_of_int n) # page_ranks)))"

text \<open>
  \<open>sample_pagerank(corpus, damping_factor, n)\<close>; \<open>rng 0\<close> is the outcome of the
  generator for the start page.
\<close>

definition sample_pagerank :: "corpus \<Rightarrow> real \<Rightarrow> int \<Rightarrow> (nat \<Rightarrow> nat) \<Rightarrow> error + real pydict" where
  "sample_pagerank corpus damping_factor n rng =
     (let visit_counts = map (\<lambda>(page, _). (page, 0)) corpus in
      case choice (keys corpus) (rng 0) of
        Inl e \<Rightarrow> Inl e
      | Inr random_page \<Rightarrow>
          (case increment visit_counts random_page of
             Inl e \<Rightarrow> Inl e
           | Inr visit_counts1 \<Rightarrow>
               (case sample_loop corpus damping_factor rng [1..<nat n] random_page visit_counts1 of
                  Inl e \<Rightarrow> Inl e
                | Inr visit_counts2 \<Rightarrow> rank_entries (keys corpus) visit_counts2 n)))"



section \<open>Iterative estimator\<close>

text \<open>
  The inner loop \<open>for p in corpus: if page in corpus[p]: sum_prob += page_ranks[p] /
  len(corpus[p])\<close>.  It visits the keys of the corpus and indexes the corpus by the key
  it visits, so it runs over the entries \<open>(p, corpus[p])\<close>.  The division is reached
  only when \<open>page\<close> is in \<open>corpus[p]\<close>, a set that then has an element.
  \<open>page_ranks[p]\<close> raises \<open>KeyError\<close> for a missing key.
\<close>

fun sum_prob_loop :: "corpus \<Rightarrow> real pydict \<Rightarrow> page \<Rightarrow> real \<Rightarrow> error + real" where
  "sum_prob_loop [] page_ranks page sum_prob = Inr sum_prob"
| "sum_prob_loop ((p, links) # rest) page_ranks page sum_prob =
     (if page |\<in>| links then
        (case getitem page_ranks p of
           Inl e \<Rightarrow> Inl e
         | Inr rank \<Rightarrow>
             sum_prob_loop rest page_ranks page (sum_prob + rank / real (fcard links)))
      else sum_prob_loop rest page_ranks page sum_prob)"

text \<open>
  The outer loop \<open>for page in corpus\<close> of one round, over the list of the pages still
  to visit, with the accumulators \<open>new_page_ranks\<close> and \<open>difference\<close>.  \<open>N\<close> is
  \<open>len(corpus)\<close>, at least \<open>1\<close> inside the loop.
\<close>

fun round_loop ::
  "corpus \<Rightarrow> real \<Rightarrow> real pydict \<Rightarrow> page list \<Rightarrow> real pydict \<Rightarrow> real
     \<Rightarrow> error + (real pydict \<times> real)"
where
  "round_loop corpus damping_factor page_ranks [] new_page_ranks difference =
     Inr (new_page_ranks, difference)"
| "round_loop corpus damping_factor page_ranks (page # rest) new_page_ranks difference =
     (case sum_prob_loop corpus page_ranks page 0 of
        Inl e \<Rightarrow> Inl e
      | Inr sum_prob \<Rightarrow>
          let new_rank = (1 - damping_factor) / real (length corpus) + damping_factor * sum_prob in
          (case getitem page_ranks page of
             Inl e \<Rightarrow> Inl e
           | Inr old_rank \<Rightarrow>
               round_loop corpus damping_factor page_ranks rest
                 (AList.update page new_rank new_page_ranks)
                 (difference + \<bar>new_rank - old_rank\<bar>)))"

text \<open>
  The loop \<open>while True\<close>.  It has no bound on the number of rounds, so the model is a
  partial function: \<open>None\<close> is a run that never leaves the loop.  On leaving, the table
  in \<open>page_ranks\<close> is the one the last round started from.
\<close>

partial_function (option) iterate_loop ::
  "corpus \<Rightarrow> real \<Rightarrow> real pydict \<Rightarrow> (error + real pydict) option"
where
  "iterate_loop corpus damping_factor page_ranks =
     (case round_loop corpus damping_factor page_ranks (keys corpus) [] 0 of
        Inl e \<Rightarrow> Some (Inl e)
      | Inr (new_page_ranks, difference) \<Rightarrow>
          if \<not> difference > 1 / 1000 then Some (Inr page_ranks)
          else iterate_loop corpus damping_factor new_page_ranks)"

declare iterate_loop.simps [code]

text \<open>
  The normalisation after the loop.  The comprehension divides once per entry, so the
  division by a zero total raises only if there is an entry.
\<close>

definition normalize :: "real pydict \<Rightarrow> error + real pydict" where
  "normalize page_ranks =
     (let total_page_ranks = sum_list (map snd page_ranks) in
      if page_ranks \<noteq> [] \<and> total_page_ranks = 0 then Inl ZeroDivisionError
      else Inr (map (\<lambda>(page, rank). (page, rank / total_page_ranks)) page_ranks))"

text \<open>
  \<open>iterate_pagerank(corpus, damping_factor)\<close>.  The first comprehension divides by \<open>N\<close>
  once per page, so not at all for the empty corpus.
\<close>

definition iterate_pagerank :: "corpus \<Rightarrow> real \<Rightarrow> (error + real pydict) option" where
  "iterate_pagerank corpus damping_factor =
     (let N = length corpus;
          page_ranks = map (\<lambda>(page, _). (page, 1 / real N)) corpus in
      case iterate_loop corpus damping_factor page_ranks of
        None \<Rightarrow> None
      | Some (Inl e) \<Rightarrow> Some (Inl e)
      | Some (Inr page_ranks') \<Rightarrow> Some (normalize page_ranks'))"

text \<open>The table the iteration starts from: \<open>{page: 1 / N for page in corpus}\<close>.\<close>

abbreviation initial_ranks :: "corpus \<Rightarrow> real pydict" where
  "initial_ranks corpus \<equiv> map (\<lambda>(page, _). (page, 1 / real (length corpus))) corpus"

section \<open>The update rule in closed form\<close>

text \<open>
  The fixed-point system of the specification, written as functions of a rank table:
  \<open>new_rank(p) = (1 - d)/N + d * (sum over every q with p in corpus[q] of
  rank(q)/|corpus[q]|)\<close>.  \<open>rank_of\<close> reads a table as a function of the page,
  \<open>next_ranks\<close> is the table of the new ranks and \<open>change\<close> the cumulative change of one
  round.  The lemma \<open>round_eq\<close> below shows that a round of the code computes exactly
  these.
\<close>

definition rank_of :: "real pydict \<Rightarrow> page \<Rightarrow> real" where
  "rank_of page_ranks p = (case map_of page_ranks p of Some rank \<Rightarrow> rank | None \<Rightarrow> 0)"

definition incoming :: "corpus \<Rightarrow> real pydict \<Rightarrow> page \<Rightarrow> real" where
  "incoming corpus page_ranks page =
     (\<Sum>(q, links)\<leftarrow>corpus. if page |\<in>| links then rank_of page_ranks q / real (fcard links) else 0)"

definition new_rank :: "corpus \<Rightarrow> real \<Rightarrow> real pydict \<Rightarrow> page \<Rightarrow> real" where
  "new_rank corpus d page_ranks page =
     (1 - d) / real (length corpus) + d * incoming corpus page_ranks page"

definition next_ranks :: "corpus \<Rightarrow> real \<Rightarrow> real pydict \<Rightarrow> real pydict" where
  "next_ranks corpus d page_ranks = map (\<lambda>(page, _). (page, new_rank corpus d page_ranks page)) corpus"

definition change :: "corpus \<Rightarrow> real \<Rightarrow> real pydict \<Rightarrow> real" where
  "change corpus d page_ranks =
     (\<Sum>page\<leftarrow>keys corpus. \<bar>new_rank corpus d page_ranks page - rank_of page_ranks page\<bar>)"

section \<open>Properties of the transition model\<close>

lemma getitem_Inr_iff: "getitem d k = Inr v \<longleftrightarrow> map_of d k = Some v"
  by (simp add: getitem_def split: option.splits)

lemma keys_map_entries: "keys (map (\<lambda>(key, _). (key, f key)) d) = keys d"
  by (induction d) (auto simp: keys_def)

lemma map_of_map_entries:
  "map_of (map (\<lambda>(key, _). (key, f key)) d) q = (if q \<in> set (keys d) then Some (f q) else None)"
  by (induction d) (auto simp: keys_def)

text \<open>
  Claim C1.  For a page \<open>p\<close> that is a key of the corpus with \<open>k > 0\<close> outgoing links
  and any damping factor \<open>d\<close>, \<open>transition_model\<close> returns a mapping over exactly the
  pages of the corpus, in which each page of \<open>corpus[p]\<close> has \<open>(1 - d)/N + d/k\<close> and
  every other page has \<open>(1 - d)/N\<close>.
\<close>

theorem transition_model_linked:
  assumes "getitem corpus p = Inr links" and "0 < fcard links"
  shows "\<exists>dist. transition_model corpus p d = Inr dist
           \<and> keys dist = keys corpus
           \<and> (\<forall>q \<in> set (keys corpus).
                 getitem dist q =
                   Inr (if q |\<in>| links
                        then (1 - d) / real (length corpus) + d / real (fcard links)
                        else (1 - d) / real (length corpus)))"
proof -
  from assms(2) have "fcard links \<noteq> 0"
    by (cases "links = {||}") (simp_all add: fcard_fempty)
  with assms(1) have "transition_model corpus p d =
      Inr (map (\<lambda>(key, _).
             (key, if key |\<in>| links
                   then (1 - d) / real (length corpus) + d / real (fcard links)
                   else (1 - d) / real (length corpus))) corpus)"
    by (simp add: transition_model_def Let_def)
  then show ?thesis
    by (simp add: keys_map_entries getitem_def map_of_map_entries)
qed

theorem transition_model_linked_witness:
  "getitem example_corpus ''A'' = Inr {|''B'', ''C''|} \<and> 0 < fcard {|''B'', ''C''|}
   \<and> (\<exists>dist. transition_model example_corpus ''A'' (85 / 100) = Inr dist
         \<and> keys dist = keys example_corpus
         \<and> (\<forall>q \<in> set (keys example_corpus).
               getitem dist q =
                 Inr (if q |\<in>| {|''B'', ''C''|}
                      then (1 - 85 / 100) / real (length example_corpus)
                           + (85 / 100) / real (fcard {|''B'', ''C''|})
                      else (1 - 85 / 100) / real (length example_corpus))))"
proof -
  have h1: "getitem example_corpus ''A'' = Inr {|''B'', ''C''|}"
    by (simp add: getitem_def example_corpus_def)
  have h2: "0 < fcard {|''B'', ''C''|}"
    by (simp add: fcard_finsert_if fcard_fempty)
  from transition_model_linked [OF h1 h2, of "85 / 100"] h1 h2 show ?thesis
    by blast
qed

text \<open>
  Claim C2.  For a page \<open>p\<close> that is a key of the corpus with no outgoing link and any
  damping factor, \<open>transition_model\<close> maps every page of the corpus to \<open>1/N\<close>; on the
  corpus \<open>{A: {B, C}, B: {}, C: {A}}\<close>, page \<open>B\<close> and damping \<open>0.85\<close> the result is
  \<open>{A: 1/3, B: 1/3, C: 1/3}\<close>.
\<close>

theorem transition_model_dangling:
  "(getitem corpus p = Inr {||} \<longrightarrow>
      (\<exists>dist. transition_model corpus p d = Inr dist
         \<and> keys dist = keys corpus
         \<and> (\<forall>q \<in> set (keys corpus). getitem dist q = Inr (1 / real (length corpus)))))
   \<and> transition_model example_corpus ''B'' (85 / 100)
       = Inr [(''A'', 1 / 3), (''B'', 1 / 3), (''C'', 1 / 3)]"
proof
  show "getitem corpus p = Inr {||} \<longrightarrow>
      (\<exists>dist. transition_model corpus p d = Inr dist
         \<and> keys dist = keys corpus
         \<and> (\<forall>q \<in> set (keys corpus). getitem dist q = Inr (1 / real (length corpus))))"
    by (simp add: transition_model_def Let_def fcard_fempty keys_map_entries getitem_def
        map_of_map_entries)
  show "transition_model example_corpus ''B'' (85 / 100)
       = Inr [(''A'', 1 / 3), (''B'', 1 / 3), (''C'', 1 / 3)]"
    by (simp add: transition_model_def example_corpus_def getitem_def fcard_fempty)
qed

theorem transition_model_dangling_witness:
  "getitem [(''A'', {|''B''|}), (''B'', {||})] ''B'' = Inr {||}
   \<and> (\<exists>dist. transition_model [(''A'', {|''B''|}), (''B'', {||})] ''B'' (1 / 2) = Inr dist
         \<and> keys dist = keys [(''A'', {|''B''|}), (''B'', {||})]
         \<and> (\<forall>q \<in> set (keys [(''A'', {|''B''|}), (''B'', {||})]).
               getitem dist q = Inr (1 / real (length [(''A'', {|''B''|}), (''B'', {||})]))))"
proof -
  have h: "getitem [(''A'', {|''B''|}), (''B'', {||})] ''B'' = Inr {||}"
    by (simp add: getitem_def)
  from transition_model_dangling [of "[(''A'', {|''B''|}), (''B'', {||})]" "''B''" "1 / 2"] h
  show ?thesis
    by blast
qed

section \<open>Properties of the sampling estimator\<close>

lemma snd_map_entries: "map snd (map (\<lambda>(key, _). (key, f key)) d) = map f (keys d)"
  by (induction d) (auto simp: keys_def)

lemma length_keys: "length (keys d) = length d"
  by (simp add: keys_def)

lemma keys_map_values: "keys (map (\<lambda>(p, c). (p, g c)) d) = keys d"
  by (induction d) (auto simp: keys_def)

lemma getitem_key:
  assumes "k \<in> set (keys d)"
  obtains v where "getitem d k = Inr v" and "map_of d k = Some v" and "(k, v) \<in> set d"
proof -
  from assms have "map_of d k \<noteq> None"
    by (simp add: keys_def map_of_eq_None_iff)
  then obtain v where "map_of d k = Some v"
    by blast
  then show thesis using that
    by (auto simp: getitem_def dest: map_of_SomeD)
qed




lemma rank_entries_lookup:
  "n \<noteq> 0 \<Longrightarrow> set ks \<subseteq> set (keys vc) \<Longrightarrow>
   rank_entries ks vc n
     = Inr (map (\<lambda>p. (p, real_of_int (the (map_of vc p)) / real_of_int n)) ks)"
proof (induction ks)
  case Nil
  then show ?case by simp
next
  case (Cons k ks)
  from Cons.prems(2) have "k \<in> set (keys vc)" by simp
  then obtain c where "getitem vc k = Inr c" "map_of vc k = Some c"
    by (rule getitem_key)
  with Cons show ?case by simp
qed

lemma map_lookup_keys:
  "distinct (map fst vc) \<Longrightarrow>
   map (\<lambda>p. (p, g (the (map_of vc p)))) (map fst vc) = map (\<lambda>(p, c). (p, g c)) vc"
proof (induction vc)
  case Nil
  then show ?case by simp
next
  case (Cons a vc)
  obtain k c where a: "a = (k, c)" by (cases a)
  from Cons.prems a have "k \<notin> fst ` set vc" by simp
  then have "map (\<lambda>p. (p, g (the (map_of ((k, c) # vc) p)))) (map fst vc)
     = map (\<lambda>p. (p, g (the (map_of vc p)))) (map fst vc)"
    by (intro map_cong) auto
  with Cons a show ?case by simp
qed

lemma rank_entries_ok:
  assumes "n \<noteq> 0" "dict_ok vc"
  shows "rank_entries (keys vc) vc n = Inr (map (\<lambda>(p, c). (p, real_of_int c / real_of_int n)) vc)"
  using rank_entries_lookup [OF assms(1), of "keys vc" vc] assms(2)
    map_lookup_keys [of vc "\<lambda>c. real_of_int c / real_of_int n"]
  by (simp add: dict_ok_def keys_def)


lemma nonneg_member_le_sum:
  "list_all (\<lambda>c. 0 \<le> c) cs \<Longrightarrow> c \<in> set cs \<Longrightarrow> (c::'a::linordered_idom) \<le> sum_list cs"
proof (induction cs)
  case Nil then show ?case by simp
next
  case (Cons a cs)
  have "0 \<le> sum_list cs" using Cons.prems(1) by (auto intro!: sum_list_nonneg simp: list_all_iff)
  with Cons show ?case by auto
qed

lemma update_map_entries:
  "distinct (keys d) \<Longrightarrow> k \<in> set (keys d) \<Longrightarrow>
   AList.update k v (map (\<lambda>(p, _). (p, f p)) d) = map (\<lambda>(p, _). (p, if p = k then v else f p)) d"
proof (induction d)
  case Nil
  then show ?case by (simp add: keys_def)
next
  case (Cons a d)
  obtain p l where a: "a = (p, l)" by (cases a)
  show ?case
  proof (cases "p = k")
    case True
    with Cons.prems a have "k \<notin> fst ` set d" by (auto simp: keys_def)
    then have "map (\<lambda>(p, _). (p, f p)) d = map (\<lambda>(p, _). (p, if p = k then v else f p)) d"
      by (intro map_cong) force+
    with True a show ?thesis by simp
  next
    case False
    with Cons a show ?thesis by (auto simp: keys_def)
  qed
qed









lemma rank_entries_zero:
  "ks \<noteq> [] \<Longrightarrow> set ks \<subseteq> set (keys vc) \<Longrightarrow> rank_entries ks vc 0 = Inl ZeroDivisionError"
proof (cases ks)
  case Nil
  assume "ks \<noteq> []" with Nil show ?thesis by simp
next
  case (Cons k rest)
  assume "set ks \<subseteq> set (keys vc)"
  with Cons have "k \<in> set (keys vc)" by simp
  then obtain c where "getitem vc k = Inr c" by (rule getitem_key)
  with Cons show ?thesis by simp
qed

text \<open>
  Claim C8, as the code has it.  The code does not check the sampling budget.  For a
  non-empty corpus and \<open>n < 1\<close> the start page is drawn and counted and the loop runs
  zero times; then for \<open>n = 0\<close> the final division raises \<open>ZeroDivisionError\<close>, and for
  \<open>n < 0\<close> the call returns the table that maps the start page to \<open>1/n\<close> and every
  other page to \<open>0\<close>.
\<close>

theorem sample_pagerank_bad_budget:
  assumes "dict_ok corpus" and "corpus \<noteq> []" and "n < 1"
  shows "sample_pagerank corpus d n rng =
           (if n = 0 then Inl ZeroDivisionError
            else Inr (map (\<lambda>(page, _).
                        (page, if page = keys corpus ! (rng 0 mod length corpus)
                               then 1 / real_of_int n else 0)) corpus))"
proof -
  let ?start = "keys corpus ! (rng 0 mod length corpus)"
  let ?vc0 = "map (\<lambda>(page, _). (page, 0::int)) corpus"
  let ?vc1 = "map (\<lambda>(page, _). (page, if page = ?start then 0 + 1 else (0::int))) corpus"
  from assms(2) have st: "choice (keys corpus) (rng 0) = Inr ?start"
    by (simp add: choice_def keys_def)
  from assms(2) have mem: "?start \<in> set (keys corpus)"
    by (simp add: length_keys)
  have k0: "keys ?vc0 = keys corpus" by (rule keys_map_entries)
  from mem have "getitem ?vc0 ?start = Inr 0"
    by (simp add: getitem_def map_of_map_entries)
  moreover have "AList.update ?start (0 + 1) ?vc0 = ?vc1"
    using assms(1) mem by (intro update_map_entries) (simp_all add: dict_ok_def)
  ultimately have inc: "increment ?vc0 ?start = Inr ?vc1"
    by (simp add: increment_def)
  from assms(3) have loop: "sample_loop corpus d rng [1..<nat n] ?start ?vc1 = Inr ?vc1"
    by simp
  have k1: "keys ?vc1 = keys corpus" by (rule keys_map_entries)
  from inc loop st have sp: "sample_pagerank corpus d n rng = rank_entries (keys corpus) ?vc1 n"
    by (simp add: sample_pagerank_def)
  show ?thesis
  proof (cases "n = 0")
    case True
    from assms(2) have "keys corpus \<noteq> []" by (simp add: keys_def)
    from rank_entries_zero [OF this, of ?vc1] k1 True sp show ?thesis by simp
  next
    case False
    from assms(1) k1 have "dict_ok ?vc1" by (simp add: dict_ok_def)
    from rank_entries_ok [OF False this] k1
    have "rank_entries (keys corpus) ?vc1 n
        = Inr (map (\<lambda>(p, c). (p, real_of_int c / real_of_int n)) ?vc1)"
      by simp
    also have "map (\<lambda>(p, c). (p, real_of_int c / real_of_int n)) ?vc1
        = map (\<lambda>(page, _). (page, if page = ?start then 1 / real_of_int n else 0)) corpus"
      by (induction corpus) auto
    finally show ?thesis using sp False by simp
  qed
qed

text \<open>
  Claim C8 as stated fails: with the budget \<open>n = -1\<close> no violation is reported at all,
  the call returns a table.
\<close>

theorem sample_pagerank_negative_budget_returns:
  "sample_pagerank [(''A'', {||})] (85 / 100) (- 1) (\<lambda>i. i) = Inr [(''A'', - 1)]"
  by (simp add: sample_pagerank_def choice_def keys_def increment_def getitem_def)

theorem sample_pagerank_bad_budget_witness:
  "dict_ok example_corpus \<and> example_corpus \<noteq> [] \<and> (0::int) < 1
   \<and> sample_pagerank example_corpus (85 / 100) 0 (\<lambda>i. i) = Inl ZeroDivisionError"
proof -
  have h1: "dict_ok example_corpus"
    by (simp add: dict_ok_def keys_def example_corpus_def)
  have h2: "example_corpus \<noteq> []"
    by (simp add: example_corpus_def)
  have h3: "(0::int) < 1"
    by simp
  from sample_pagerank_bad_budget [OF h1 h2 h3, of "85 / 100" "\<lambda>i. i"] h1 h2 h3
  show ?thesis
    by simp
qed

section \<open>Properties of the iterative estimator\<close>

lemma getitem_rank_of:
  "p \<in> set (keys t) \<Longrightarrow> getitem t p = Inr (rank_of t p)"
  by (erule getitem_key) (simp add: rank_of_def)

lemma sum_prob_loop_eq:
  "set (keys cs) \<subseteq> set (keys t) \<Longrightarrow>
   sum_prob_loop cs t page acc
     = Inr (acc + (\<Sum>(q, links)\<leftarrow>cs. if page |\<in>| links then rank_of t q / real (fcard links) else 0))"
proof (induction cs arbitrary: acc)
  case Nil
  then show ?case by simp
next
  case (Cons a cs)
  obtain q links where a: "a = (q, links)" by (cases a)
  from Cons.prems a have q: "getitem t q = Inr (rank_of t q)"
    by (intro getitem_rank_of) (simp add: keys_def)
  from Cons.prems have "set (keys cs) \<subseteq> set (keys t)"
    by (simp add: keys_def)
  from Cons.IH [OF this] a q show ?case
    by simp
qed

lemma update_fresh:
  "k \<notin> set (keys al) \<Longrightarrow> AList.update k v al = al @ [(k, v)]"
  by (induction al) (auto simp: keys_def)

lemma round_loop_eq:
  assumes "keys t = keys corpus"
  shows "distinct ks \<Longrightarrow> set ks \<subseteq> set (keys corpus) \<Longrightarrow> set (keys new) \<inter> set ks = {} \<Longrightarrow>
    round_loop corpus d t ks new diff
      = Inr (new @ map (\<lambda>p. (p, new_rank corpus d t p)) ks,
             diff + (\<Sum>p\<leftarrow>ks. \<bar>new_rank corpus d t p - rank_of t p\<bar>))"
proof (induction ks arbitrary: new diff)
  case Nil
  then show ?case by simp
next
  case (Cons p ks)
  from assms have sp: "sum_prob_loop corpus t p 0 = Inr (incoming corpus t p)"
    by (simp add: sum_prob_loop_eq incoming_def)
  from Cons.prems(2) assms have old: "getitem t p = Inr (rank_of t p)"
    by (intro getitem_rank_of) simp
  from Cons.prems(3) have fresh: "AList.update p (new_rank corpus d t p) new = new @ [(p, new_rank corpus d t p)]"
    by (intro update_fresh) auto
  have "set (keys (new @ [(p, new_rank corpus d t p)])) \<inter> set ks = {}"
    using Cons.prems(1,3) by (auto simp: keys_def)
  from Cons.IH [OF _ _ this] Cons.prems(1,2)
  have "round_loop corpus d t ks (new @ [(p, new_rank corpus d t p)])
          (diff + \<bar>new_rank corpus d t p - rank_of t p\<bar>)
      = Inr ((new @ [(p, new_rank corpus d t p)]) @ map (\<lambda>p. (p, new_rank corpus d t p)) ks,
             (diff + \<bar>new_rank corpus d t p - rank_of t p\<bar>)
               + (\<Sum>p\<leftarrow>ks. \<bar>new_rank corpus d t p - rank_of t p\<bar>))"
    by simp
  then show ?case
    by (simp add: sp old fresh new_rank_def [symmetric] Let_def add.assoc)
qed

lemma map_keys_entries: "map (\<lambda>p. (p, f p)) (keys d) = map (\<lambda>(p, _). (p, f p)) d"
  by (induction d) (auto simp: keys_def)

lemma round_eq:
  assumes "dict_ok corpus" "keys t = keys corpus"
  shows "round_loop corpus d t (keys corpus) [] 0 = Inr (next_ranks corpus d t, change corpus d t)"
  using round_loop_eq [OF assms(2), of "keys corpus" "[]" d 0] assms(1)
  by (simp add: dict_ok_def next_ranks_def change_def map_keys_entries keys_def [of "[]"])

lemma keys_next_ranks: "keys (next_ranks corpus d t) = keys corpus"
  by (simp add: next_ranks_def keys_map_entries)


lemma rank_of_next_ranks:
  "p \<in> set (keys corpus) \<Longrightarrow> rank_of (next_ranks corpus d t) p = new_rank corpus d t p"
  by (simp add: rank_of_def next_ranks_def map_of_map_entries)








lemma keys_funpow_next: "keys t = keys corpus \<Longrightarrow> keys ((next_ranks corpus d ^^ k) t) = keys corpus"
  by (induction k) (simp_all add: keys_next_ranks)




lemma loop_result:
  assumes "iterate_loop corpus d t = Some y"
  shows "dict_ok corpus \<longrightarrow> keys t = keys corpus \<longrightarrow>
    (\<exists>k. y = Inr ((next_ranks corpus d ^^ k) t)
        \<and> \<not> change corpus d ((next_ranks corpus d ^^ k) t) > 1 / 1000
        \<and> (\<forall>i<k. change corpus d ((next_ranks corpus d ^^ i) t) > 1 / 1000))"
proof (rule iterate_loop.raw_induct [where P = "\<lambda>corpus d t y. dict_ok corpus \<longrightarrow> keys t = keys corpus \<longrightarrow>
    (\<exists>k. y = Inr ((next_ranks corpus d ^^ k) t)
        \<and> \<not> change corpus d ((next_ranks corpus d ^^ k) t) > 1 / 1000
        \<and> (\<forall>i<k. change corpus d ((next_ranks corpus d ^^ i) t) > 1 / 1000))", OF _ assms], goal_cases)
  case (1 loop corpus d t y)
  show ?case
  proof (intro impI)
    assume ok: "dict_ok corpus" and kt: "keys t = keys corpus"
    show "\<exists>k. y = Inr ((next_ranks corpus d ^^ k) t)
        \<and> \<not> change corpus d ((next_ranks corpus d ^^ k) t) > 1 / 1000
        \<and> (\<forall>i<k. change corpus d ((next_ranks corpus d ^^ i) t) > 1 / 1000)"
    proof (cases "change corpus d t > 1 / 1000")
      case False
      with 1(2) have "y = Inr ((next_ranks corpus d ^^ 0) t)
        \<and> \<not> change corpus d ((next_ranks corpus d ^^ 0) t) > 1 / 1000
        \<and> (\<forall>i<0. change corpus d ((next_ranks corpus d ^^ i) t) > 1 / 1000)"
        by (simp add: round_eq [OF ok kt])
      then show ?thesis by blast
    next
      case True
      with 1(2) have "loop corpus d (next_ranks corpus d t) = Some y"
        by (simp add: round_eq [OF ok kt])
      from 1(1) [OF this] ok keys_next_ranks [of corpus d t]
      obtain k where k: "y = Inr ((next_ranks corpus d ^^ k) (next_ranks corpus d t))"
        "\<not> change corpus d ((next_ranks corpus d ^^ k) (next_ranks corpus d t)) > 1 / 1000"
        "\<forall>i<k. change corpus d ((next_ranks corpus d ^^ i) (next_ranks corpus d t)) > 1 / 1000"
        by blast
      have "\<forall>i<Suc k. change corpus d ((next_ranks corpus d ^^ i) t) > 1 / 1000"
      proof (intro allI impI)
        fix i assume "i < Suc k"
        show "change corpus d ((next_ranks corpus d ^^ i) t) > 1 / 1000"
        proof (cases i)
          case 0
          with True show ?thesis by simp
        next
          case (Suc i')
          with \<open>i < Suc k\<close> k(3) show ?thesis by (simp add: funpow_swap1)
        qed
      qed
      with k(1,2) have "y = Inr ((next_ranks corpus d ^^ Suc k) t)
        \<and> \<not> change corpus d ((next_ranks corpus d ^^ Suc k) t) > 1 / 1000
        \<and> (\<forall>i<Suc k. change corpus d ((next_ranks corpus d ^^ i) t) > 1 / 1000)"
        by (simp add: funpow_swap1)
      then show ?thesis by blast
    qed
  qed
qed

lemma iterate_pagerank_result:
  assumes "dict_ok corpus" "iterate_pagerank corpus d = Some res"
  shows "\<exists>k. iterate_loop corpus d (initial_ranks corpus)
               = Some (Inr ((next_ranks corpus d ^^ k) (initial_ranks corpus)))
           \<and> res = normalize ((next_ranks corpus d ^^ k) (initial_ranks corpus))
           \<and> \<not> change corpus d ((next_ranks corpus d ^^ k) (initial_ranks corpus)) > 1 / 1000
           \<and> (\<forall>i<k. change corpus d ((next_ranks corpus d ^^ i) (initial_ranks corpus)) > 1 / 1000)"
proof -
  from assms(2) obtain y where y: "iterate_loop corpus d (initial_ranks corpus) = Some y"
    by (auto simp: iterate_pagerank_def split: option.splits)
  have k0: "keys (initial_ranks corpus) = keys corpus"
    by (rule keys_map_entries)
  from loop_result [OF y] assms(1) k0
  obtain k where k: "y = Inr ((next_ranks corpus d ^^ k) (initial_ranks corpus))"
    "\<not> change corpus d ((next_ranks corpus d ^^ k) (initial_ranks corpus)) > 1 / 1000"
    "\<forall>i<k. change corpus d ((next_ranks corpus d ^^ i) (initial_ranks corpus)) > 1 / 1000"
    by blast
  from assms(2) y k(1) have "res = normalize ((next_ranks corpus d ^^ k) (initial_ranks corpus))"
    by (simp add: iterate_pagerank_def)
  with y k show ?thesis
    by blast
qed

lemma rank_of_nonneg: "list_all (\<lambda>v. 0 \<le> v) (map snd t) \<Longrightarrow> 0 \<le> rank_of t q"
  by (auto simp: rank_of_def list_all_iff split: option.splits dest!: map_of_SomeD)

lemma incoming_nonneg:
  assumes "list_all (\<lambda>v. 0 \<le> v) (map snd t)"
  shows "0 \<le> incoming corpus t p"
  unfolding incoming_def
  by (intro sum_list_nonneg) (auto simp: rank_of_nonneg [OF assms])

lemma new_rank_pos:
  assumes "0 \<le> d" "d < 1" "corpus \<noteq> []" "list_all (\<lambda>v. 0 \<le> v) (map snd t)"
  shows "0 < new_rank corpus d t p"
proof -
  from assms(2,3) have "0 < (1 - d) / real (length corpus)"
    by simp
  moreover from assms(1) incoming_nonneg [OF assms(4)] have "0 \<le> d * incoming corpus t p"
    by simp
  ultimately show ?thesis
    by (simp add: new_rank_def)
qed

lemma positive_next_ranks:
  assumes "0 \<le> d" "d < 1" "corpus \<noteq> []" "list_all (\<lambda>v. 0 < v) (map snd t)"
  shows "list_all (\<lambda>v. 0 < v) (map snd (next_ranks corpus d t))"
proof -
  from assms(4) have "list_all (\<lambda>v. 0 \<le> v) (map snd t)"
    by (auto simp: list_all_iff)
  from new_rank_pos [OF assms(1-3) this] show ?thesis
    unfolding next_ranks_def snd_map_entries by (simp add: list_all_iff)
qed

lemma positive_funpow:
  assumes "0 \<le> d" "d < 1" "corpus \<noteq> []" "list_all (\<lambda>v. 0 < v) (map snd t)"
  shows "list_all (\<lambda>v. 0 < v) (map snd ((next_ranks corpus d ^^ k) t))"
  by (induction k) (simp_all add: assms(4) positive_next_ranks [OF assms(1-3)])

lemma positive_initial: "list_all (\<lambda>v. 0 < v) (map snd (initial_ranks corpus))"
  unfolding snd_map_entries by (cases corpus) (simp_all add: list_all_iff keys_def)

lemma sum_list_positive:
  "xs \<noteq> [] \<Longrightarrow> list_all (\<lambda>v. 0 < v) xs \<Longrightarrow> 0 < sum_list (xs :: real list)"
proof (induction xs)
  case Nil
  then show ?case by simp
next
  case (Cons x xs)
  then show ?case by (cases xs) (auto intro: add_pos_pos)
qed

lemma sum_list_divide:
  "sum_list (map (\<lambda>v. v / c) xs) = sum_list xs / (c::real)"
  by (induction xs) (auto simp: add_divide_distrib)

lemma normalize_ok:
  assumes "t \<noteq> []" "list_all (\<lambda>v. 0 < v) (map snd t)"
  shows "\<exists>r. normalize t = Inr r \<and> keys r = keys t
           \<and> list_all (\<lambda>v. 0 \<le> v \<and> v \<le> 1) (map snd r) \<and> sum_list (map snd r) = 1"
proof -
  let ?total = "sum_list (map snd t)"
  let ?r = "map (\<lambda>(page, rank). (page, rank / ?total)) t"
  from assms have total: "0 < ?total"
    by (intro sum_list_positive) simp_all
  then have n: "normalize t = Inr ?r"
    by (simp add: normalize_def Let_def)
  have k: "keys ?r = keys t"
    by (rule keys_map_values)
  have sp: "map snd ?r = map (\<lambda>v. v / ?total) (map snd t)"
    by auto
  have s: "sum_list (map snd ?r) = 1"
    using total unfolding sp sum_list_divide by simp
  from assms(2) have nonneg: "list_all (\<lambda>v. 0 \<le> v) (map snd t)"
    by (auto simp: list_all_iff)
  have b: "list_all (\<lambda>v. 0 \<le> v \<and> v \<le> 1) (map snd ?r)"
    unfolding sp list_all_iff
  proof
    fix v assume "v \<in> set (map (\<lambda>v. v / ?total) (map snd t))"
    then obtain w where w: "w \<in> set (map snd t)" "v = w / ?total"
      by auto
    from w(1) nonneg have "0 \<le> w" by (auto simp: list_all_iff)
    moreover from nonneg_member_le_sum [OF nonneg w(1)] have "w \<le> ?total" .
    ultimately show "0 \<le> v \<and> v \<le> 1"
      using total w(2) by simp
  qed
  from n k b s show ?thesis
    by blast
qed

text \<open>
  Claim C4.  If \<open>iterate_pagerank\<close> terminates, one more update round
  (\<open>new_rank(p) = (1 - d)/N + d * sum over every q with p in corpus[q] of
  rank(q)/|corpus[q]|\<close>) applied to the ranks on which the loop stopped, before their
  normalisation, changes no page's rank by more than \<open>0.001\<close>.  This holds for every
  dict-shaped corpus and every damping factor, so in particular for \<open>N \<ge> 1\<close> and a
  damping factor in \<open>(0, 1)\<close>.
\<close>

theorem iterate_pagerank_stops_converged:
  assumes "dict_ok corpus" and "iterate_pagerank corpus d = Some res"
  shows "\<exists>page_ranks new_page_ranks difference.
           iterate_loop corpus d (initial_ranks corpus) = Some (Inr page_ranks)
         \<and> res = normalize page_ranks
         \<and> round_loop corpus d page_ranks (keys corpus) [] 0 = Inr (new_page_ranks, difference)
         \<and> keys page_ranks = keys corpus
         \<and> keys new_page_ranks = keys corpus
         \<and> (\<forall>p \<in> set (keys corpus). \<exists>old_rank new_rank.
               getitem page_ranks p = Inr old_rank
             \<and> getitem new_page_ranks p = Inr new_rank
             \<and> new_rank = (1 - d) / real (length corpus)
                 + d * (\<Sum>(q, links)\<leftarrow>corpus.
                          if p |\<in>| links then rank_of page_ranks q / real (fcard links) else 0)
             \<and> \<bar>new_rank - old_rank\<bar> \<le> 1 / 1000)"
proof -
  from iterate_pagerank_result [OF assms] obtain k where
    k: "iterate_loop corpus d (initial_ranks corpus)
          = Some (Inr ((next_ranks corpus d ^^ k) (initial_ranks corpus)))"
       "res = normalize ((next_ranks corpus d ^^ k) (initial_ranks corpus))"
       "\<not> change corpus d ((next_ranks corpus d ^^ k) (initial_ranks corpus)) > 1 / 1000"
    by blast
  let ?t = "(next_ranks corpus d ^^ k) (initial_ranks corpus)"
  have kt: "keys ?t = keys corpus"
    by (intro keys_funpow_next keys_map_entries)
  have r: "round_loop corpus d ?t (keys corpus) [] 0 = Inr (next_ranks corpus d ?t, change corpus d ?t)"
    by (rule round_eq [OF assms(1) kt])
  have kn: "keys (next_ranks corpus d ?t) = keys corpus"
    by (rule keys_next_ranks)
  have pages: "\<exists>old_rank new_rank.
               getitem ?t p = Inr old_rank
             \<and> getitem (next_ranks corpus d ?t) p = Inr new_rank
             \<and> new_rank = (1 - d) / real (length corpus)
                 + d * (\<Sum>(q, links)\<leftarrow>corpus.
                          if p |\<in>| links then rank_of ?t q / real (fcard links) else 0)
             \<and> \<bar>new_rank - old_rank\<bar> \<le> 1 / 1000" if p: "p \<in> set (keys corpus)" for p
  proof -
    from p kt have old: "getitem ?t p = Inr (rank_of ?t p)"
      by (intro getitem_rank_of) simp
    from p kn have "getitem (next_ranks corpus d ?t) p = Inr (rank_of (next_ranks corpus d ?t) p)"
      by (intro getitem_rank_of) simp
    with p have new: "getitem (next_ranks corpus d ?t) p = Inr (new_rank corpus d ?t p)"
      by (simp add: rank_of_next_ranks)
    have "list_all (\<lambda>c. 0 \<le> c) (map (\<lambda>p. \<bar>new_rank corpus d ?t p - rank_of ?t p\<bar>) (keys corpus))"
      by (simp add: list_all_iff)
    moreover from p have "\<bar>new_rank corpus d ?t p - rank_of ?t p\<bar>
        \<in> set (map (\<lambda>p. \<bar>new_rank corpus d ?t p - rank_of ?t p\<bar>) (keys corpus))"
      by simp
    ultimately have "\<bar>new_rank corpus d ?t p - rank_of ?t p\<bar> \<le> change corpus d ?t"
      unfolding change_def by (rule nonneg_member_le_sum)
    with k(3) have "\<bar>new_rank corpus d ?t p - rank_of ?t p\<bar> \<le> 1 / 1000"
      by simp
    with old new show ?thesis
      by (simp add: new_rank_def incoming_def)
  qed
  from k(1,2) r kt kn pages show ?thesis
    by blast
qed

theorem iterate_pagerank_stops_converged_witness:
  "dict_ok two_page_corpus
   \<and> iterate_pagerank two_page_corpus (1 / 2) = Some (Inr [(''A'', 2 / 5), (''B'', 3 / 5)])
   \<and> (\<exists>page_ranks new_page_ranks difference.
           iterate_loop two_page_corpus (1 / 2) (initial_ranks two_page_corpus) = Some (Inr page_ranks)
         \<and> Inr [(''A'', 2 / 5), (''B'', 3 / 5)] = normalize page_ranks
         \<and> round_loop two_page_corpus (1 / 2) page_ranks (keys two_page_corpus) [] 0
             = Inr (new_page_ranks, difference)
         \<and> keys page_ranks = keys two_page_corpus
         \<and> keys new_page_ranks = keys two_page_corpus
         \<and> (\<forall>p \<in> set (keys two_page_corpus). \<exists>old_rank new_rank.
               getitem page_ranks p = Inr old_rank
             \<and> getitem new_page_ranks p = Inr new_rank
             \<and> new_rank = (1 - 1 / 2) / real (length two_page_corpus)
                 + 1 / 2 * (\<Sum>(q, links)\<leftarrow>two_page_corpus.
                          if p |\<in>| links then rank_of page_ranks q / real (fcard links) else 0)
             \<and> \<bar>new_rank - old_rank\<bar> \<le> 1 / 1000))"
proof -
  have h1: "dict_ok two_page_corpus"
    by (simp add: dict_ok_def keys_def two_page_corpus_def)
  have h2: "iterate_pagerank two_page_corpus (1 / 2) = Some (Inr [(''A'', 2 / 5), (''B'', 3 / 5)])"
    by (simp add: two_page_corpus_def iterate_pagerank_def iterate_loop.simps keys_def
        getitem_def normalize_def fcard_finsert_if fcard_fempty Let_def)
  from iterate_pagerank_stops_converged [OF h1 h2] h1 h2 show ?thesis
    by blast
qed

text \<open>
  Claim C5.  For every corpus with \<open>N \<ge> 1\<close> and every damping factor in \<open>(0, 1)\<close>, if
  \<open>iterate_pagerank\<close> returns, the result has one entry per page of the corpus, every
  value lies in \<open>[0, 1]\<close>, and the values sum to \<open>1\<close> (in exact arithmetic).
\<close>

theorem iterate_pagerank_distribution:
  assumes "dict_ok corpus" and "corpus \<noteq> []" and "0 < d" and "d < 1"
    and "iterate_pagerank corpus d = Some res"
  shows "\<exists>page_ranks. res = Inr page_ranks
           \<and> keys page_ranks = keys corpus
           \<and> list_all (\<lambda>v. 0 \<le> v \<and> v \<le> 1) (map snd page_ranks)
           \<and> sum_list (map snd page_ranks) = 1"
proof -
  from iterate_pagerank_result [OF assms(1,5)] obtain k where
    k: "res = normalize ((next_ranks corpus d ^^ k) (initial_ranks corpus))"
    by blast
  let ?t = "(next_ranks corpus d ^^ k) (initial_ranks corpus)"
  have kt: "keys ?t = keys corpus"
    by (intro keys_funpow_next keys_map_entries)
  with assms(2) have ne: "?t \<noteq> []"
    by (auto simp: keys_def)
  from assms(3) have "0 \<le> d" by simp
  from positive_funpow [OF this assms(4,2) positive_initial]
  have "list_all (\<lambda>v. 0 < v) (map snd ?t)" .
  from normalize_ok [OF ne this] k kt show ?thesis
    by auto
qed

theorem iterate_pagerank_distribution_witness:
  "dict_ok two_page_corpus \<and> two_page_corpus \<noteq> [] \<and> (0::real) < 1 / 2 \<and> (1::real) / 2 < 1
   \<and> iterate_pagerank two_page_corpus (1 / 2) = Some (Inr [(''A'', 2 / 5), (''B'', 3 / 5)])
   \<and> (\<exists>page_ranks. Inr [(''A'', 2 / 5), (''B'', 3 / 5)] = (Inr page_ranks :: error + real pydict)
           \<and> keys page_ranks = keys two_page_corpus
           \<and> list_all (\<lambda>v. 0 \<le> v \<and> v \<le> 1) (map snd page_ranks)
           \<and> sum_list (map snd page_ranks) = 1)"
proof -
  have h1: "dict_ok two_page_corpus"
    by (simp add: dict_ok_def keys_def two_page_corpus_def)
  have h2: "two_page_corpus \<noteq> []"
    by (simp add: two_page_corpus_def)
  have h3: "(0::real) < 1 / 2" and h4: "(1::real) / 2 < 1"
    by simp_all
  have h5: "iterate_pagerank two_page_corpus (1 / 2) = Some (Inr [(''A'', 2 / 5), (''B'', 3 / 5)])"
    by (simp add: two_page_corpus_def iterate_pagerank_def iterate_loop.simps keys_def
        getitem_def normalize_def fcard_finsert_if fcard_fempty Let_def)
  from iterate_pagerank_distribution [OF h1 h2 h3 h4 h5] h1 h2 h3 h4 h5 show ?thesis
    by blast
qed



text \<open>
  Claim C10.  When the loop of \<open>iterate_pagerank\<close> is left, the table that is
  normalised and returned is \<open>page_ranks\<close>, the ranks the last round started from, and
  not the \<open>new_page_ranks\<close> that round computed: the returned table is the
  normalisation of the table after \<open>k\<close> updates, where round \<open>k\<close> is the first whose
  cumulative change is not greater than \<open>0.001\<close>; the update computed in that round is
  discarded.
\<close>

theorem iterate_pagerank_returns_previous_round:
  assumes "dict_ok corpus" and "iterate_pagerank corpus d = Some res"
  shows "\<exists>k page_ranks new_page_ranks difference.
           page_ranks = (next_ranks corpus d ^^ k) (initial_ranks corpus)
         \<and> (\<forall>i<k. \<exists>difference'.
               round_loop corpus d ((next_ranks corpus d ^^ i) (initial_ranks corpus)) (keys corpus) [] 0
                 = Inr ((next_ranks corpus d ^^ Suc i) (initial_ranks corpus), difference')
               \<and> difference' > 1 / 1000)
         \<and> round_loop corpus d page_ranks (keys corpus) [] 0 = Inr (new_page_ranks, difference)
         \<and> new_page_ranks = next_ranks corpus d page_ranks
         \<and> \<not> difference > 1 / 1000
         \<and> iterate_loop corpus d (initial_ranks corpus) = Some (Inr page_ranks)
         \<and> res = normalize page_ranks"
proof -
  from iterate_pagerank_result [OF assms] obtain k where
    k: "iterate_loop corpus d (initial_ranks corpus)
          = Some (Inr ((next_ranks corpus d ^^ k) (initial_ranks corpus)))"
       "res = normalize ((next_ranks corpus d ^^ k) (initial_ranks corpus))"
       "\<not> change corpus d ((next_ranks corpus d ^^ k) (initial_ranks corpus)) > 1 / 1000"
       "\<forall>i<k. change corpus d ((next_ranks corpus d ^^ i) (initial_ranks corpus)) > 1 / 1000"
    by blast
  have r: "round_loop corpus d ((next_ranks corpus d ^^ i) (initial_ranks corpus)) (keys corpus) [] 0
      = Inr ((next_ranks corpus d ^^ Suc i) (initial_ranks corpus),
             change corpus d ((next_ranks corpus d ^^ i) (initial_ranks corpus)))" for i
  proof -
    have "keys ((next_ranks corpus d ^^ i) (initial_ranks corpus)) = keys corpus"
      by (intro keys_funpow_next keys_map_entries)
    from round_eq [OF assms(1) this] show ?thesis
      by simp
  qed
  from k(4) r have "\<forall>i<k. \<exists>difference'.
               round_loop corpus d ((next_ranks corpus d ^^ i) (initial_ranks corpus)) (keys corpus) [] 0
                 = Inr ((next_ranks corpus d ^^ Suc i) (initial_ranks corpus), difference')
               \<and> difference' > 1 / 1000"
    by blast
  moreover have "round_loop corpus d ((next_ranks corpus d ^^ k) (initial_ranks corpus)) (keys corpus) [] 0
      = Inr (next_ranks corpus d ((next_ranks corpus d ^^ k) (initial_ranks corpus)),
             change corpus d ((next_ranks corpus d ^^ k) (initial_ranks corpus)))"
    using r [of k] by simp
  ultimately show ?thesis
    using k(1,2,3) by blast
qed

theorem iterate_pagerank_returns_previous_round_witness:
  "dict_ok two_page_corpus
   \<and> iterate_pagerank two_page_corpus (1 / 1000) = Some (Inr [(''A'', 1 / 2), (''B'', 1 / 2)])
   \<and> round_loop two_page_corpus (1 / 1000) (initial_ranks two_page_corpus) (keys two_page_corpus) [] 0
       = Inr ([(''A'', 999 / 2000), (''B'', 1 / 2)], 1 / 2000)
   \<and> normalize [(''A'', 999 / 2000), (''B'', 1 / 2)] \<noteq> Inr [(''A'', 1 / 2), (''B'', 1 / 2)]
   \<and> (\<exists>k page_ranks new_page_ranks difference.
           page_ranks = (next_ranks two_page_corpus (1 / 1000) ^^ k) (initial_ranks two_page_corpus)
         \<and> (\<forall>i<k. \<exists>difference'.
               round_loop two_page_corpus (1 / 1000)
                   ((next_ranks two_page_corpus (1 / 1000) ^^ i) (initial_ranks two_page_corpus))
                   (keys two_page_corpus) [] 0
                 = Inr ((next_ranks two_page_corpus (1 / 1000) ^^ Suc i) (initial_ranks two_page_corpus),
                        difference')
               \<and> difference' > 1 / 1000)
         \<and> round_loop two_page_corpus (1 / 1000) page_ranks (keys two_page_corpus) [] 0
             = Inr (new_page_ranks, difference)
         \<and> new_page_ranks = next_ranks two_page_corpus (1 / 1000) page_ranks
         \<and> \<not> difference > 1 / 1000
         \<and> iterate_loop two_page_corpus (1 / 1000) (initial_ranks two_page_corpus)
             = Some (Inr page_ranks)
         \<and> Inr [(''A'', 1 / 2), (''B'', 1 / 2)] = normalize page_ranks)"
proof -
  have h1: "dict_ok two_page_corpus"
    by (simp add: dict_ok_def keys_def two_page_corpus_def)
  have h2: "iterate_pagerank two_page_corpus (1 / 1000)
      = Some (Inr [(''A'', 1 / 2), (''B'', 1 / 2)])"
    by (simp add: two_page_corpus_def iterate_pagerank_def iterate_loop.simps keys_def
        getitem_def normalize_def fcard_finsert_if fcard_fempty Let_def)
  have h3: "round_loop two_page_corpus (1 / 1000) (initial_ranks two_page_corpus)
        (keys two_page_corpus) [] 0
      = Inr ([(''A'', 999 / 2000), (''B'', 1 / 2)], 1 / 2000)"
    by (simp add: two_page_corpus_def keys_def getitem_def fcard_finsert_if fcard_fempty Let_def)
  have h4: "normalize [(''A'', 999 / 2000), (''B'', 1 / 2)] \<noteq> Inr [(''A'', 1 / 2), (''B'', 1 / 2)]"
    by (simp add: normalize_def Let_def)
  from iterate_pagerank_returns_previous_round [OF h1 h2] h1 h2 h3 h4 show ?thesis
    by blast
qed

text \<open>
  Claim C7, as the code has it.  Neither estimator checks the corpus at its entry.  On
  the empty corpus \<open>sample_pagerank\<close> stops at its first random draw with the
  \<open>IndexError\<close> that \<open>random.choice\<close> raises on the empty list of keys, and
  \<open>iterate_pagerank\<close> raises nothing: no division is evaluated and the empty mapping is
  returned.
\<close>

theorem empty_corpus_unchecked:
  "sample_pagerank [] d n rng = Inl IndexError \<and> iterate_pagerank [] d = Some (Inr [])"
  by (simp add: sample_pagerank_def choice_def iterate_pagerank_def iterate_loop.simps
      keys_def normalize_def)

text \<open>
  Claim C7 as stated fails: on the empty corpus \<open>iterate_pagerank\<close> reports no error,
  it returns a (empty) table.
\<close>

theorem iterate_pagerank_empty_corpus_returns:
  "iterate_pagerank [] (85 / 100) = Some (Inr [])"
  by (simp add: iterate_pagerank_def iterate_loop.simps keys_def normalize_def)

section \<open>Properties of the corpus ingestion\<close>

lemma crawl_read_inv:
  "distinct (keys pages) \<Longrightarrow> (\<forall>(f, ls) \<in> set pages. f |\<notin>| ls) \<Longrightarrow>
   distinct (keys (crawl_read findall directory pages))
   \<and> (\<forall>(f, ls) \<in> set (crawl_read findall directory pages). f |\<notin>| ls)"
proof (induction directory arbitrary: pages)
  case Nil
  then show ?case by simp
next
  case (Cons entry rest)
  obtain filename contents where e: "entry = (filename, contents)" by (cases entry)
  show ?case
  proof (cases "suffix ''.html'' filename")
    case False
    with Cons e show ?thesis by simp
  next
    case True
    let ?pages = "AList.update filename (fset_of_list (findall contents) |-| {|filename|}) pages"
    from Cons.prems(1) have d: "distinct (keys ?pages)"
      by (simp add: keys_def distinct_update)
    have s: "\<forall>(f, ls) \<in> set ?pages. f |\<notin>| ls"
    proof (clarify)
      fix f ls assume mem: "(f, ls) \<in> set ?pages" and "f |\<in>| ls"
      from d mem have "map_of ?pages f = Some ls"
        by (simp add: keys_def)
      then have "((map_of pages)(filename \<mapsto> fset_of_list (findall contents) |-| {|filename|})) f = Some ls"
        by (simp add: update_conv')
      with \<open>f |\<in>| ls\<close> Cons.prems(2) show False
        by (auto split: if_splits dest!: map_of_SomeD)
    qed
    from Cons.IH [OF d s] True e show ?thesis
      by (simp add: Let_def)
  qed
qed

lemma crawl_prune_ok:
  "distinct (keys pages) \<Longrightarrow> distinct ks \<Longrightarrow> set ks \<subseteq> set (keys pages) \<Longrightarrow>
   \<exists>pages'. crawl_prune ks pages = Inr pages' \<and> keys pages' = keys pages
     \<and> (\<forall>f. map_of pages' f =
            (if f \<in> set ks
             then map_option (ffilter (\<lambda>link. link \<in> set (keys pages))) (map_of pages f)
             else map_of pages f))"
proof (induction ks arbitrary: pages)
  case Nil
  then show ?case by simp
next
  case (Cons k rest)
  from Cons.prems(3) have "k \<in> set (keys pages)" by simp
  then obtain links where l: "getitem pages k = Inr links" "map_of pages k = Some links"
    by (rule getitem_key)
  let ?pages = "AList.update k (ffilter (\<lambda>link. link \<in> set (keys pages)) links) pages"
  from \<open>k \<in> set (keys pages)\<close> have k1: "keys ?pages = keys pages"
    by (simp add: keys_def update_keys)
  from Cons.prems k1 have "distinct (keys ?pages)" "distinct rest" "set rest \<subseteq> set (keys ?pages)"
    by simp_all
  from Cons.IH [OF this] obtain pages' where p: "crawl_prune rest ?pages = Inr pages'"
    "keys pages' = keys ?pages"
    "\<forall>f. map_of pages' f =
            (if f \<in> set rest
             then map_option (ffilter (\<lambda>link. link \<in> set (keys ?pages))) (map_of ?pages f)
             else map_of ?pages f)"
    by blast
  have "crawl_prune (k # rest) pages = Inr pages'"
    by (simp add: l(1) p(1))
  moreover have "keys pages' = keys pages"
    by (simp add: p(2) k1)
  moreover have "map_of pages' f =
            (if f \<in> set (k # rest)
             then map_option (ffilter (\<lambda>link. link \<in> set (keys pages))) (map_of pages f)
             else map_of pages f)" for f
    using p(3) Cons.prems(2) l(2) by (auto simp: k1 update_conv')
  ultimately show ?case by blast
qed

text \<open>
  Claim C9.  For every directory, \<open>crawl\<close> returns a mapping (no error is raised,
  whatever the candidate links are) that satisfies both graph invariants: no key's
  link set contains the key itself, and every page in a link set is a key of the
  mapping.
\<close>

theorem crawl_graph_invariants:
  "\<exists>pages. crawl findall directory = Inr pages
     \<and> dict_ok pages
     \<and> (\<forall>(filename, links) \<in> set pages.
           filename |\<notin>| links \<and> (\<forall>link. link |\<in>| links \<longrightarrow> link \<in> set (keys pages)))"
proof -
  let ?pages = "crawl_read findall directory []"
  from crawl_read_inv [of "[]" findall directory]
  have d: "distinct (keys ?pages)" and s: "\<forall>(f, ls) \<in> set ?pages. f |\<notin>| ls"
    by (simp_all add: keys_def)
  from crawl_prune_ok [OF d d subset_refl]
  obtain pages' where p: "crawl_prune (keys ?pages) ?pages = Inr pages'"
    "keys pages' = keys ?pages"
    "\<forall>f. map_of pages' f =
            (if f \<in> set (keys ?pages)
             then map_option (ffilter (\<lambda>link. link \<in> set (keys ?pages))) (map_of ?pages f)
             else map_of ?pages f)"
    by blast
  from p(1) have c: "crawl findall directory = Inr pages'"
    by (simp add: crawl_def Let_def)
  from d p(2) have ok: "dict_ok pages'"
    by (simp add: dict_ok_def)
  have inv: "filename |\<notin>| links \<and> (\<forall>link. link |\<in>| links \<longrightarrow> link \<in> set (keys pages'))"
    if mem: "(filename, links) \<in> set pages'" for filename links
  proof -
    from ok mem have m: "map_of pages' filename = Some links"
      by (simp add: dict_ok_def keys_def)
    from mem have "filename \<in> set (keys pages')"
      by (force simp: keys_def)
    with p(2) have "filename \<in> set (keys ?pages)"
      by simp
    with m p(3) obtain links0 where l0: "map_of ?pages filename = Some links0"
      "links = ffilter (\<lambda>link. link \<in> set (keys ?pages)) links0"
      by auto
    from l0(1) s have "filename |\<notin>| links0"
      by (auto dest!: map_of_SomeD)
    with l0(2) p(2) show ?thesis
      by auto
  qed
  from c ok inv show ?thesis
    by blast
qed

theorem crawl_graph_invariants_witness:
  "crawl toy_findall toy_directory
     = Inr [(''1.html'', {|''2.html''|}), (''2.html'', {|''3.html''|}), (''3.html'', {||})]
   \<and> (\<exists>pages. crawl toy_findall toy_directory = Inr pages
       \<and> dict_ok pages
       \<and> (\<forall>(filename, links) \<in> set pages.
             filename |\<notin>| links \<and> (\<forall>link. link |\<in>| links \<longrightarrow> link \<in> set (keys pages))))"
proof -
  have "crawl toy_findall toy_directory
     = Inr [(''1.html'', {|''2.html''|}), (''2.html'', {|''3.html''|}), (''3.html'', {||})]"
    by code_simp
  with crawl_graph_invariants [of toy_findall toy_directory] show ?thesis
    by blast
qed

end
